theory Spec2Isabelle
  imports Main "HOL-Library.AList" "HOL-Library.Multiset" "HOL-Library.Sublist"
begin

section \<open>The vault as the scan sees it\<close>

text \<open>
  The servers of \<^verbatim>\<open>obsidian_server.py\<close> walk the vault directory with \<^verbatim>\<open>os.walk\<close>, and for
  each file read it and hand the text to \<^verbatim>\<open>frontmatter.loads\<close>. Both are outside the
  repository, so a vault is the list of (directory, file name) pairs in walk order, each with
  the outcome of reading and parsing it: \<open>None\<close> when \<^verbatim>\<open>open\<close>, \<^verbatim>\<open>read\<close> or
  \<^verbatim>\<open>frontmatter.loads\<close> raises, the raw text and the two metadata entries the code looks
  at otherwise. Characters are code points below 256.
\<close>

record document =
  content :: string
  tags :: "string list"
  modified :: string

record vault_file =
  root :: string
  file_name :: string
  loaded :: "document option"

text \<open>
  Both endpoints start with \<^verbatim>\<open>ensure_vault_exists\<close> inside a \<^verbatim>\<open>try\<close> whose handler turns
  any exception into \<^verbatim>\<open>HTTPException(status_code=500)\<close>. \<open>No_Vault\<close> is the vault directory
  that is missing and cannot be created; \<open>Vault fs\<close> is a vault that is there, with its files.
\<close>

datatype vault = No_Vault | Vault "vault_file list"

datatype http_error = Http_Error nat

definition EXCLUDED_VAULT :: string where
  "EXCLUDED_VAULT =
     ''/Users/jongosussmango/Library/Mobile Documents/iCloud~md~obsidian/Documents/ObsidianTTRPGVault Experimental''"

text \<open>\<^verbatim>\<open>a in b\<close> on two strings.\<close>

fun str_in :: "string \<Rightarrow> string \<Rightarrow> bool" where
  "str_in q [] = (q = [])"
| "str_in q (c # cs) = (prefix q (c # cs) \<or> str_in q cs)"

definition is_excluded_path :: "string \<Rightarrow> bool" where
  "is_excluded_path path = str_in EXCLUDED_VAULT path"

definition endswith :: "string \<Rightarrow> string \<Rightarrow> bool" where
  "endswith s suf = suffix suf s"

text \<open>
  \<^verbatim>\<open>Path(root) / file\<close> as a string, and its \<^verbatim>\<open>stem\<close> for a name that ends in
  \<^verbatim>\<open>.md\<close>: the name without its last suffix, where a name that is all suffix keeps it.
\<close>

definition file_path :: "vault_file \<Rightarrow> string" where
  "file_path f = root f @ ''/'' @ file_name f"

definition stem :: "string \<Rightarrow> string" where
  "stem name = (if length name > 3 then take (length name - 3) name else name)"

section \<open>Link extraction\<close>

definition newline :: char where
  "newline = CHR 0x0A"

text \<open>
  \<^verbatim>\<open>re.findall(r'\[\[(.*?)\]\]', content)\<close>. \<open>link_body\<close> reads the text after an
  opening \<^verbatim>\<open>[[\<close>: the lazy \<^verbatim>\<open>.*?\<close> stops at the first \<^verbatim>\<open>]]\<close> and never crosses a
  newline. It returns the captured group and the text after the match.
\<close>

fun link_body :: "string \<Rightarrow> (string \<times> string) option" where
  "link_body [] = None"
| "link_body (c # cs) =
     (if prefix '']]'' (c # cs) then Some ([], drop 1 cs)
      else if c = newline then None
      else map_option (\<lambda>(l, r). (c # l, r)) (link_body cs))"

definition link_at :: "string \<Rightarrow> (string \<times> string) option" where
  "link_at s = (if prefix ''[['' s then link_body (drop 2 s) else None)"

function find_links :: "string \<Rightarrow> string list" where
  "find_links s =
     (case s of
        [] \<Rightarrow> []
      | c # cs \<Rightarrow>
          (case link_at s of
             Some (l, r) \<Rightarrow> l # find_links r
           | None \<Rightarrow> find_links cs))"
  by pat_completeness auto
termination
proof -
  have body: "link_body s = Some (l, r) \<Longrightarrow> length r < length s" for s l r
    by (induction s arbitrary: l) (auto split: if_splits)
  show ?thesis
    by (relation "measure length") (auto simp: link_at_def dest!: body split: if_splits)
qed

declare find_links.simps [simp del]

text \<open>\<^verbatim>\<open>str.strip()\<close>: the characters below 256 that Python counts as whitespace.\<close>

definition is_space :: "char \<Rightarrow> bool" where
  "is_space c =
     (let n = (of_char c :: nat)
      in (9 \<le> n \<and> n \<le> 13) \<or> (28 \<le> n \<and> n \<le> 32) \<or> n = 133 \<or> n = 160)"

definition strip :: "string \<Rightarrow> string" where
  "strip s = rev (dropWhile is_space (rev (dropWhile is_space s)))"

text \<open>\<^verbatim>\<open>link.split('|')[0]\<close>\<close>

definition split_first :: "string \<Rightarrow> string" where
  "split_first link = takeWhile (\<lambda>c. c \<noteq> CHR ''|'') link"

definition clean_link :: "string \<Rightarrow> string" where
  "clean_link link = strip (split_first link)"

section \<open>Graph construction\<close>

datatype node =
    is_note: Note_Node (node_id: string) (node_label: string) (node_path: string)
      (node_tags: "string list") (node_size: nat)
  | is_tag: Tag_Node (node_id: string) (node_label: string) (node_size: nat)

datatype edge_type = Link_Edge | Tag_Edge

record edge =
  source :: string
  target :: string
  etype :: edge_type

text \<open>
  The dictionary \<^verbatim>\<open>nodes\<close> keeps insertion order, and assigning to a key that is present
  keeps its place: an association list under \<open>AList.update\<close>. \<^verbatim>\<open>k in nodes\<close> is
  \<open>map_of nodes k \<noteq> None\<close>.
\<close>

record graph =
  nodes :: "(string \<times> node) list"
  edges :: "edge list"

record graph_request =
  depth :: int
  node :: "string option"
  include_tags :: bool
  include_attachments :: bool

definition link_edges :: "string \<Rightarrow> string \<Rightarrow> edge list" where
  "link_edges note_name text =
     map (\<lambda>link. \<lparr>source = note_name, target = clean_link link, etype = Link_Edge\<rparr>)
       (find_links text)"

definition add_tag :: "string \<Rightarrow> string \<Rightarrow> graph \<Rightarrow> graph" where
  "add_tag note_name tag g =
     (let g' = (if map_of (nodes g) tag = None
                then g\<lparr>nodes := AList.update tag (Tag_Node tag (''#'' @ tag) 1) (nodes g)\<rparr>
                else g)
      in g'\<lparr>edges := edges g' @ [\<lparr>source = note_name, target = tag, etype = Tag_Edge\<rparr>]\<rparr>)"

definition scan_file :: "bool \<Rightarrow> vault_file \<Rightarrow> graph \<Rightarrow> graph" where
  "scan_file with_tags f g =
     (if is_excluded_path (root f) \<or> \<not> endswith (file_name f) ''.md'' then g
      else case loaded f of
        None \<Rightarrow> g
      | Some n \<Rightarrow>
          (let note_name = stem (file_name f);
               g1 = g\<lparr>nodes := AList.update note_name
                      (Note_Node note_name note_name (file_path f) (tags n) (length (content n)))
                      (nodes g)\<rparr>;
               g2 = g1\<lparr>edges := edges g1 @ link_edges note_name (content n)\<rparr>
           in if with_tags then fold (add_tag note_name) (tags n) g2 else g2))"

definition build_graph :: "bool \<Rightarrow> vault_file list \<Rightarrow> graph" where
  "build_graph with_tags fs = fold (scan_file with_tags) fs \<lparr>nodes = [], edges = []\<rparr>"

section \<open>Scoped traversal\<close>

text \<open>
  The nested \<^verbatim>\<open>traverse\<close> of \<^verbatim>\<open>generate_graph\<close>. The state is the pair
  \<^verbatim>\<open>filtered_nodes\<close>, \<^verbatim>\<open>filtered_edges\<close>; \<open>ns\<close> and \<open>es\<close> are the full node dictionary
  and edge list, which the traversal only reads.
\<close>

function traverse ::
  "(string \<times> node) list \<Rightarrow> edge list \<Rightarrow> string \<Rightarrow> int \<Rightarrow> graph \<Rightarrow> graph" where
  "traverse ns es n d st =
     (if d \<le> 0 then st
      else case map_of ns n of
        None \<Rightarrow> st
      | Some v \<Rightarrow>
          fold (\<lambda>e st.
                  if source e = n \<and> map_of (nodes st) (target e) = None
                  then traverse ns es (target e) (d - 1) (st\<lparr>edges := edges st @ [e]\<rparr>)
                  else if target e = n \<and> map_of (nodes st) (source e) = None
                  then traverse ns es (source e) (d - 1) (st\<lparr>edges := edges st @ [e]\<rparr>)
                  else st)
            es (st\<lparr>nodes := AList.update n v (nodes st)\<rparr>))"
  by pat_completeness auto
termination
  by (relation "measure (\<lambda>(ns, es, n, d, st). nat d)") auto

declare traverse.simps [simp del]

record graph_stats =
  total_notes :: nat
  total_tags :: nat
  total_links :: nat

record graph_response =
  resp_nodes :: "node list"
  resp_edges :: "edge list"
  stats :: graph_stats

definition respond :: "graph \<Rightarrow> graph_response" where
  "respond g =
     \<lparr>resp_nodes = map snd (nodes g),
      resp_edges = edges g,
      stats = \<lparr>total_notes = length (filter is_note (map snd (nodes g))),
               total_tags = length (filter is_tag (map snd (nodes g))),
               total_links = length (edges g)\<rparr>\<rparr>"

text \<open>
  \<^verbatim>\<open>if request.node and request.node in nodes\<close>: the filter runs for a root that is
  given, is not the empty string and is a key of \<^verbatim>\<open>nodes\<close>; otherwise the full graph is
  the answer.
\<close>

definition scoped :: "graph_request \<Rightarrow> graph \<Rightarrow> graph" where
  "scoped req g =
     (case node req of
        None \<Rightarrow> g
      | Some r \<Rightarrow>
          if r \<noteq> [] \<and> map_of (nodes g) r \<noteq> None
          then traverse (nodes g) (edges g) r (depth req) \<lparr>nodes = [], edges = []\<rparr>
          else g)"

definition generate_graph :: "graph_request \<Rightarrow> vault \<Rightarrow> http_error + graph_response" where
  "generate_graph req v =
     (case v of
        No_Vault \<Rightarrow> Inl (Http_Error 500)
      | Vault fs \<Rightarrow> Inr (respond (scoped req (build_graph (include_tags req) fs))))"

section \<open>Regular expressions\<close>

text \<open>
  \<^verbatim>\<open>search_notes\<close> hands the query to Python's \<^verbatim>\<open>re\<close> module as a pattern. The module is
  outside the repository. The model computes it on the patterns made of ordinary characters,
  \<^verbatim>\<open>.\<close> and bracketed sets of ordinary characters and the escapes \<^verbatim>\<open>\[\<close> and \<^verbatim>\<open>\]\<close>
  (each such item matches exactly one character), and leaves every other pattern to the
  parameter \<open>re_ext\<close>, which answers \<open>None\<close> where \<^verbatim>\<open>re\<close> raises \<^verbatim>\<open>re.error\<close>.
  \<open>parse_atoms\<close> reads a pattern of the computed kind into its items and answers \<open>None\<close>
  for any other pattern.
\<close>

definition backslash :: char where
  "backslash = CHR 0x5C"

definition special_chars :: "char list" where
  "special_chars = backslash # ''.^$*+?{}[]|()''"


datatype atom = Lit char | Any_Char | Char_Set bool "char list"

text \<open>The members of a set up to its closing bracket, and the pattern after it.\<close>

fun parse_set :: "string \<Rightarrow> (char list \<times> string) option" where
  "parse_set [] = None"
| "parse_set (c # cs) =
     (if c = CHR '']'' then Some ([], cs)
      else if c = backslash then
        (case cs of
           [] \<Rightarrow> None
         | d # ds \<Rightarrow>
             if d = CHR ''['' \<or> d = CHR '']''
             then map_option (\<lambda>(ms, r). (d # ms, r)) (parse_set ds)
             else None)
      else if c \<in> set special_chars \<or> c \<in> set ''-&~'' then None
      else map_option (\<lambda>(ms, r). (c # ms, r)) (parse_set cs))"

function parse_atoms :: "string \<Rightarrow> atom list option" where
  "parse_atoms p =
     (case p of
        [] \<Rightarrow> Some []
      | c # cs \<Rightarrow>
          if c = CHR ''.'' then map_option ((#) Any_Char) (parse_atoms cs)
          else if c = CHR ''['' then
            (let neg = prefix ''^'' cs;
                 body = (if neg then drop 1 cs else cs)
             in case parse_set body of
                  None \<Rightarrow> None
                | Some (ms, r) \<Rightarrow>
                    if ms = [] then None
                    else map_option ((#) (Char_Set neg ms)) (parse_atoms r))
          else if c \<in> set special_chars then None
          else map_option ((#) (Lit c)) (parse_atoms cs))"
  by pat_completeness auto
termination
proof -
  have body: "parse_set s = Some (ms, r) \<Longrightarrow> length r < Suc (length s)" for s ms r
    by (induction s arbitrary: ms rule: parse_set.induct)
       (fastforce split: if_splits list.splits)+
  show ?thesis
    by (relation "measure length") (auto dest!: body split: if_splits)
qed

declare parse_atoms.simps [simp del]

text \<open>\<^verbatim>\<open>str.lower()\<close> on code points below 256.\<close>

definition lower_char :: "char \<Rightarrow> char" where
  "lower_char c =
     (let n = (of_char c :: nat)
      in if (65 \<le> n \<and> n \<le> 90) \<or> (192 \<le> n \<and> n \<le> 222 \<and> n \<noteq> 215)
         then char_of (n + 32) else c)"

definition lower :: "string \<Rightarrow> string" where
  "lower s = map lower_char s"

text \<open>One pattern item against one character; \<open>ic\<close> is \<^verbatim>\<open>re.IGNORECASE\<close>.\<close>

fun atom_match :: "bool \<Rightarrow> atom \<Rightarrow> char \<Rightarrow> bool" where
  "atom_match ic (Lit a) c = (if ic then lower_char c = lower_char a else c = a)"
| "atom_match ic Any_Char c = (c \<noteq> newline)"
| "atom_match ic (Char_Set neg ms) c =
     ((if ic then lower_char c \<in> set (map lower_char ms) else c \<in> set ms) \<noteq> neg)"

fun atoms_at :: "bool \<Rightarrow> atom list \<Rightarrow> string \<Rightarrow> bool" where
  "atoms_at ic [] s = True"
| "atoms_at ic (a # as) [] = False"
| "atoms_at ic (a # as) (c # cs) = (atom_match ic a c \<and> atoms_at ic as cs)"

text \<open>
  The number of matches \<^verbatim>\<open>re.findall\<close> reports under \<^verbatim>\<open>re.IGNORECASE\<close>: the scan goes left
  to right and resumes after each match; the empty pattern matches once at every position.
\<close>

function count_matches :: "atom list \<Rightarrow> string \<Rightarrow> nat" where
  "count_matches as s =
     (if as = [] then length s + 1
      else case s of
        [] \<Rightarrow> 0
      | c # cs \<Rightarrow>
          if atoms_at True as s then 1 + count_matches as (drop (length as) s)
          else count_matches as cs)"
  by pat_completeness auto
termination
  by (relation "measure (\<lambda>(as, s). length s)") auto

declare count_matches.simps [simp del]

text \<open>\<^verbatim>\<open>re.search(rf'\[\[{query}.*?\]\]', content)\<close> for a query of the computed kind.\<close>

definition backlink_at :: "atom list \<Rightarrow> string \<Rightarrow> bool" where
  "backlink_at as s =
     (prefix ''[['' s \<and> atoms_at False as (drop 2 s) \<and> link_body (drop (2 + length as) s) \<noteq> None)"

fun backlink_in :: "atom list \<Rightarrow> string \<Rightarrow> bool" where
  "backlink_in as [] = backlink_at as []"
| "backlink_in as (c # cs) = (backlink_at as (c # cs) \<or> backlink_in as cs)"

record re_ext =
  ext_search :: "string \<Rightarrow> string \<Rightarrow> bool option"
  ext_findall :: "string \<Rightarrow> string \<Rightarrow> nat option"

definition link_pattern :: "string \<Rightarrow> string" where
  "link_pattern q =
     [backslash, CHR ''['', backslash, CHR ''[''] @ q @ ''.*?'' @ [backslash, CHR '']'', backslash, CHR '']'']"

text \<open>\<^verbatim>\<open>re.search(link_pattern, content)\<close> as a truth value.\<close>

definition re_search_link :: "re_ext \<Rightarrow> string \<Rightarrow> string \<Rightarrow> bool option" where
  "re_search_link re q text =
     (case parse_atoms q of
        Some as \<Rightarrow> Some (backlink_in as text)
      | None \<Rightarrow> ext_search re (link_pattern q) text)"

text \<open>\<^verbatim>\<open>len(re.findall(query, content, re.IGNORECASE))\<close>\<close>

definition re_findall_count :: "re_ext \<Rightarrow> string \<Rightarrow> string \<Rightarrow> nat option" where
  "re_findall_count re q text =
     (case parse_atoms q of
        Some as \<Rightarrow> Some (count_matches as text)
      | None \<Rightarrow> ext_findall re q text)"

section \<open>Ranked search\<close>

record search_request =
  query :: string
  folder :: "string option"
  req_tags :: "string list option"
  limit :: int
  search_type :: string

record search_result =
  path :: string
  title :: string
  preview :: string
  result_tags :: "string list"
  result_modified :: string
  matches :: nat

record search_response =
  resp_query :: string
  resp_count :: nat
  results :: "search_result list"

text \<open>
  The chain of \<^verbatim>\<open>if\<close>/\<^verbatim>\<open>elif\<close> on \<^verbatim>\<open>request.search_type\<close>; \<open>None\<close> is an exception
  raised while matching, which the loop swallows.
\<close>

definition is_match :: "re_ext \<Rightarrow> search_request \<Rightarrow> vault_file \<Rightarrow> document \<Rightarrow> bool option" where
  "is_match re req f d =
     (if search_type req = ''content'' then Some (str_in (lower (query req)) (lower (content d)))
      else if search_type req = ''title'' then Some (str_in (lower (query req)) (lower (file_name f)))
      else if search_type req = ''tags'' then
        Some (list_ex (\<lambda>tag. tag \<in> set (tags d))
               (case req_tags req of
                  None \<Rightarrow> [query req]
                | Some ts \<Rightarrow> if ts = [] then [query req] else ts))
      else if search_type req = ''backlinks'' then re_search_link re (query req) (content d)
      else Some False)"

definition make_preview :: "string \<Rightarrow> string" where
  "make_preview text = (if length text > 200 then take 200 text @ ''...'' else text)"

text \<open>The body of the loop over the files of one directory.\<close>

definition search_file :: "re_ext \<Rightarrow> search_request \<Rightarrow> vault_file \<Rightarrow> search_result option" where
  "search_file re req f =
     (if \<not> endswith (file_name f) ''.md'' then None
      else case loaded f of
        None \<Rightarrow> None
      | Some d \<Rightarrow>
          (case is_match re req f d of
             None \<Rightarrow> None
           | Some m \<Rightarrow>
               if m then
                 (case re_findall_count re (query req) (content d) of
                    None \<Rightarrow> None
                  | Some k \<Rightarrow>
                      Some \<lparr>path = file_path f, title = stem (file_name f),
                            preview = make_preview (content d), result_tags = tags d,
                            result_modified = modified d, matches = k\<rparr>)
               else None))"

text \<open>The two tests on the directory that skip it whole.\<close>

definition dir_skipped :: "search_request \<Rightarrow> string \<Rightarrow> bool" where
  "dir_skipped req dir =
     (is_excluded_path dir \<or>
      (case folder req of None \<Rightarrow> False | Some fo \<Rightarrow> fo \<noteq> [] \<and> \<not> str_in fo dir))"

definition collect :: "re_ext \<Rightarrow> search_request \<Rightarrow> vault_file list \<Rightarrow> search_result list" where
  "collect re req fs =
     fold (\<lambda>f results.
             if dir_skipped req (root f) then results
             else case search_file re req f of
               None \<Rightarrow> results
             | Some r \<Rightarrow> results @ [r])
       fs []"

text \<open>\<^verbatim>\<open>results.sort(key=lambda x: x['matches'], reverse=True)\<close>: stable, largest key first.\<close>

definition sort_results :: "search_result list \<Rightarrow> search_result list" where
  "sort_results rs = sort_key (\<lambda>r. - int (matches r)) rs"

text \<open>\<^verbatim>\<open>xs[:k]\<close>; a negative \<open>k\<close> counts from the end.\<close>

definition slice_to :: "int \<Rightarrow> 'a list \<Rightarrow> 'a list" where
  "slice_to k xs = (if k < 0 then take (nat (int (length xs) + k)) xs else take (nat k) xs)"

definition search_notes :: "re_ext \<Rightarrow> search_request \<Rightarrow> vault \<Rightarrow> http_error + search_response" where
  "search_notes re req v =
     (case v of
        No_Vault \<Rightarrow> Inl (Http_Error 500)
      | Vault fs \<Rightarrow>
          (let rs = sort_results (collect re req fs)
           in Inr \<lparr>resp_query = query req, resp_count = length rs, results = slice_to (limit req) rs\<rparr>))"

section \<open>Notions used to state the properties\<close>

text \<open>An edge that touches \<open>n\<close> and is not a loop on it.\<close>

definition incident :: "string \<Rightarrow> edge \<Rightarrow> bool" where
  "incident n e = ((source e = n \<and> target e \<noteq> n) \<or> (target e = n \<and> source e \<noteq> n))"

text \<open>The body of the \<^verbatim>\<open>for edge in edges\<close> loop of \<^verbatim>\<open>traverse\<close>, named.\<close>

definition visit ::
  "(string \<times> node) list \<Rightarrow> edge list \<Rightarrow> string \<Rightarrow> int \<Rightarrow> edge \<Rightarrow> graph \<Rightarrow> graph" where
  "visit ns es n d e st =
     (if source e = n \<and> map_of (nodes st) (target e) = None
      then traverse ns es (target e) (d - 1) (st\<lparr>edges := edges st @ [e]\<rparr>)
      else if target e = n \<and> map_of (nodes st) (source e) = None
      then traverse ns es (source e) (d - 1) (st\<lparr>edges := edges st @ [e]\<rparr>)
      else st)"

definition visited :: "graph \<Rightarrow> string set" where
  "visited st = dom (map_of (nodes st))"

text \<open>
  What one call of \<^verbatim>\<open>traverse\<close> on an unvisited node does to the state: the visited set
  grows, and the edges it appends join two identifiers that were unvisited before the call,
  one of which is visited after it; no edge is appended more often than the full list has it.
\<close>

definition grown :: "edge list \<Rightarrow> graph \<Rightarrow> graph \<Rightarrow> bool" where
  "grown es st st' =
     (visited st \<subseteq> visited st' \<and>
      (\<exists>new. edges st' = edges st @ new \<and>
         (\<forall>e \<in> set new. source e \<notin> visited st \<and> target e \<notin> visited st \<and>
                          (source e \<in> visited st' \<or> target e \<in> visited st')) \<and>
         (\<forall>e. count_list new e \<le> count_list es e)))"

text \<open>The same for the loop of the visited node \<open>x\<close> over the part \<open>xs\<close> of the edge list.\<close>

definition loop_inv :: "edge list \<Rightarrow> string \<Rightarrow> edge list \<Rightarrow> graph \<Rightarrow> graph \<Rightarrow> bool" where
  "loop_inv es x xs st st' =
     (visited st \<subseteq> visited st' \<and>
      (\<exists>new. edges st' = edges st @ new \<and>
         (\<forall>e \<in> set new. (source e \<in> visited st' \<or> target e \<in> visited st') \<and>
                          (source e \<notin> visited st \<or> source e = x) \<and>
                          (target e \<notin> visited st \<or> target e = x)) \<and>
         (\<forall>e. count_list new e \<le>
                (if source e = x \<or> target e = x then count_list xs e else count_list es e))))"

text \<open>
  The files the graph builder scans to the end: not under the excluded vault, named
  \<^verbatim>\<open>*.md\<close>, read and parsed without an exception. Each comes with its parsed document.
\<close>

definition scanned_docs :: "vault_file list \<Rightarrow> (vault_file \<times> document) list" where
  "scanned_docs fs =
     concat (map (\<lambda>f. if is_excluded_path (root f) \<or> \<not> endswith (file_name f) ''.md'' then []
                        else case loaded f of None \<Rightarrow> [] | Some d \<Rightarrow> [(f, d)]) fs)"

definition note_name :: "vault_file \<Rightarrow> string" where
  "note_name f = stem (file_name f)"

definition note_node :: "vault_file \<Rightarrow> document \<Rightarrow> node" where
  "note_node f d = Note_Node (note_name f) (note_name f) (file_path f) (tags d) (length (content d))"

definition tag_edges :: "string \<Rightarrow> string list \<Rightarrow> edge list" where
  "tag_edges name ts = map (\<lambda>t. \<lparr>source = name, target = t, etype = Tag_Edge\<rparr>) ts"

definition doc_names :: "vault_file list \<Rightarrow> string set" where
  "doc_names fs = (\<lambda>(f, d). note_name f) ` set (scanned_docs fs)"

definition tag_names :: "vault_file list \<Rightarrow> string set" where
  "tag_names fs = (\<Union>(f, d) \<in> set (scanned_docs fs). set (tags d))"

section \<open>Example vaults\<close>

text \<open>
  A note file as it lies in the vault: the raw text is the YAML header that lists the tags
  (none when there are no tags) followed by the body, and \<open>tags\<close> is what the header parses to.
\<close>

definition front_matter :: "string list \<Rightarrow> string" where
  "front_matter ts =
     (if ts = [] then []
      else ''---'' @ [newline] @ ''tags:'' @ [newline] @
           concat (map (\<lambda>t. ''- '' @ t @ [newline]) ts) @ ''---'' @ [newline])"

definition md :: "string \<Rightarrow> string \<Rightarrow> string list \<Rightarrow> vault_file" where
  "md name body ts =
     \<lparr>root = ''/vault'', file_name = name @ ''.md'',
      loaded = Some \<lparr>content = front_matter ts @ body, tags = ts, modified = []\<rparr>\<rparr>"

text \<open>
  Five notes: \<open>A\<close> links to \<open>R\<close> and \<open>B\<close>, \<open>B\<close> to \<open>X\<close>, \<open>R\<close> to \<open>X\<close>, \<open>X\<close> to \<open>Y\<close>.
  From \<open>R\<close> the note \<open>X\<close> is one hop away directly and three hops away through \<open>A\<close> and
  \<open>B\<close>, and the path through \<open>A\<close> comes first in the edge list.
\<close>

definition chain_vault :: "vault_file list" where
  "chain_vault =
     [md ''A'' ''[[R]] [[B]]'' [], md ''B'' ''[[X]]'' [], md ''R'' ''[[X]]'' [],
      md ''X'' ''[[Y]]'' [], md ''Y'' [] []]"

definition graph_req :: "string \<Rightarrow> int \<Rightarrow> graph_request" where
  "graph_req r d = \<lparr>depth = d, node = Some r, include_tags = True, include_attachments = False\<rparr>"

text \<open>Two notes, each tagged with the other's name.\<close>

definition cross_vault :: "vault_file list" where
  "cross_vault = [md ''A'' ''first'' [''B''], md ''B'' ''second'' [''A'']]"

text \<open>One note whose only link has blanks around the target and an alias.\<close>

definition padded_vault :: "vault_file list" where
  "padded_vault = [md ''A'' ''[[ B |x]]'' []]"

section \<open>Notions for the search properties\<close>



text \<open>The search modes the request model documents.\<close>

definition known_modes :: "string set" where
  "known_modes = {''content'', ''title'', ''tags'', ''backlinks''}"

section \<open>Example searches\<close>

text \<open>An engine that is never asked: the example queries are all of the computed kind.\<close>

definition no_ext :: re_ext where
  "no_ext = \<lparr>ext_search = (\<lambda>_ _. None), ext_findall = (\<lambda>_ _. None)\<rparr>"

definition search_req :: "string \<Rightarrow> string \<Rightarrow> search_request" where
  "search_req q mode = \<lparr>query = q, folder = None, req_tags = None, limit = 50, search_type = mode\<rparr>"

text \<open>The three notes of the specification's example corpus.\<close>

definition spec_vault :: "vault_file list" where
  "spec_vault =
     [md ''A'' ''See [[B]] and [[C|alias]]'' [''x''], md ''B'' ''no links'' [''x''],
      md ''C'' ''[[A]]'' []]"





section \<open>Scoped traversal: the root\<close>

lemma traverse_stop: "d \<le> 0 \<Longrightarrow> traverse ns es n d st = st"
  by (simp add: traverse.simps)

lemma fold_depth_one:
  "d \<le> 1 \<Longrightarrow>
   fold (\<lambda>e st.
           if source e = n \<and> map_of (nodes st) (target e) = None
           then traverse ns es (target e) (d - 1) (st\<lparr>edges := edges st @ [e]\<rparr>)
           else if target e = n \<and> map_of (nodes st) (source e) = None
           then traverse ns es (source e) (d - 1) (st\<lparr>edges := edges st @ [e]\<rparr>)
           else st)
     xs \<lparr>nodes = [(n, v)], edges = acc\<rparr> =
   \<lparr>nodes = [(n, v)], edges = acc @ filter (incident n) xs\<rparr>"
  by (induction xs arbitrary: acc) (auto simp: traverse_stop incident_def)

lemma traverse_depth_one:
  "map_of ns r = Some v \<Longrightarrow>
   traverse ns es r 1 \<lparr>nodes = [], edges = []\<rparr> =
     \<lparr>nodes = [(r, v)], edges = filter (incident r) es\<rparr>"
  by (subst traverse.simps) (simp add: fold_depth_one)

text \<open>
  C1, as the code has it. The traversal runs only under the guard
  \<^verbatim>\<open>if request.node and request.node in nodes\<close>. For a requested root that is not a key of
  the node dictionary the guard fails and the operation answers with the full graph of the
  vault, every node and every edge, whatever the depth.
\<close>

theorem missing_root_returns_full_graph:
  assumes "node req = Some r"
    and "map_of (nodes (build_graph (include_tags req) fs)) r = None"
  shows "generate_graph req (Vault fs) = Inr (respond (build_graph (include_tags req) fs))"
  using assms by (simp add: generate_graph_def scoped_def)

theorem missing_root_returns_full_graph_witness:
  "node (graph_req ''Z'' 2) = Some ''Z'' \<and>
   map_of (nodes (build_graph (include_tags (graph_req ''Z'' 2)) chain_vault)) ''Z'' = None \<and>
   generate_graph (graph_req ''Z'' 2) (Vault chain_vault) =
     Inr (respond (build_graph (include_tags (graph_req ''Z'' 2)) chain_vault))"
proof -
  have a: "node (graph_req ''Z'' 2) = Some ''Z''"
    by (simp add: graph_req_def)
  have b: "map_of (nodes (build_graph (include_tags (graph_req ''Z'' 2)) chain_vault)) ''Z'' = None"
    by code_simp
  show ?thesis
    using missing_root_returns_full_graph [OF a b] a b by simp
qed

text \<open>
  C1 as stated fails: \<open>Z\<close> is no node of the example vault, and the answer for root \<open>Z\<close>
  holds all five notes and all five links.
\<close>

theorem missing_root_not_empty:
  "map_of (nodes (build_graph True chain_vault)) ''Z'' = None \<and>
   generate_graph (graph_req ''Z'' 2) (Vault chain_vault) \<noteq>
     Inr (respond \<lparr>nodes = [], edges = []\<rparr>) \<and>
   map node_id (resp_nodes (projr (generate_graph (graph_req ''Z'' 2) (Vault chain_vault)))) =
     [''A'', ''B'', ''R'', ''X'', ''Y''] \<and>
   length (resp_edges (projr (generate_graph (graph_req ''Z'' 2) (Vault chain_vault)))) = 5"
  by code_simp

text \<open>
  C2 at the failing input: in the example vault the traversal from \<open>R\<close> reaches \<open>Y\<close> at
  depth 3 and loses it at depth 4, where \<open>X\<close> is first reached through \<open>A\<close> and \<open>B\<close> with
  no depth left and is then skipped as already visited.
\<close>

theorem deeper_traversal_loses_node:
  "map node_id (resp_nodes (projr (generate_graph (graph_req ''R'' 3) (Vault chain_vault)))) =
     [''R'', ''A'', ''B'', ''X'', ''Y''] \<and>
   map node_id (resp_nodes (projr (generate_graph (graph_req ''R'' 4) (Vault chain_vault)))) =
     [''R'', ''A'', ''B'', ''X'']"
  by code_simp

text \<open>
  C3, as the code has it. \<^verbatim>\<open>traverse\<close> returns at once when \<^verbatim>\<open>depth <= 0\<close>, before it
  records the node: for a root that is a node of the graph (and not the empty string), depth
  0 or less gives no node and no edge. The root alone is the node set at depth 1, together
  with the edges that join the root to another identifier.
\<close>

theorem depth_zero_empty_depth_one_root:
  assumes "node req = Some r" and "r \<noteq> []"
    and "map_of (nodes (build_graph (include_tags req) fs)) r = Some v"
  shows "(depth req \<le> 0 \<longrightarrow>
            generate_graph req (Vault fs) = Inr (respond \<lparr>nodes = [], edges = []\<rparr>)) \<and>
         (depth req = 1 \<longrightarrow>
            generate_graph req (Vault fs) =
              Inr (respond \<lparr>nodes = [(r, v)],
                     edges = filter (incident r) (edges (build_graph (include_tags req) fs))\<rparr>))"
  using assms by (simp add: generate_graph_def scoped_def traverse_stop traverse_depth_one)

theorem depth_zero_empty_depth_one_root_witness:
  "node (graph_req ''R'' 0) = Some ''R'' \<and> node (graph_req ''R'' 1) = Some ''R'' \<and> ''R'' \<noteq> [] \<and>
   map_of (nodes (build_graph True chain_vault)) ''R'' =
     Some (Note_Node ''R'' ''R'' ''/vault/R.md'' [] 5) \<and>
   generate_graph (graph_req ''R'' 0) (Vault chain_vault) = Inr (respond \<lparr>nodes = [], edges = []\<rparr>) \<and>
   generate_graph (graph_req ''R'' 1) (Vault chain_vault) =
     Inr (respond \<lparr>nodes = [(''R'', Note_Node ''R'' ''R'' ''/vault/R.md'' [] 5)],
            edges = [\<lparr>source = ''A'', target = ''R'', etype = Link_Edge\<rparr>,
                     \<lparr>source = ''R'', target = ''X'', etype = Link_Edge\<rparr>]\<rparr>)"
proof -
  have a: "node (graph_req ''R'' d) = Some ''R''" for d
    by (simp add: graph_req_def)
  have b: "''R'' \<noteq> []"
    by simp
  have c: "map_of (nodes (build_graph (include_tags (graph_req ''R'' d)) chain_vault)) ''R'' =
             Some (Note_Node ''R'' ''R'' ''/vault/R.md'' [] 5)" for d
    unfolding graph_req_def by code_simp
  have d: "depth (graph_req ''R'' 0) \<le> 0" "depth (graph_req ''R'' 1) = 1"
    by (simp_all add: graph_req_def)
  have e: "filter (incident ''R'') (edges (build_graph (include_tags (graph_req ''R'' 1)) chain_vault)) =
             [\<lparr>source = ''A'', target = ''R'', etype = Link_Edge\<rparr>,
              \<lparr>source = ''R'', target = ''X'', etype = Link_Edge\<rparr>]"
    by code_simp
  have t: "include_tags (graph_req ''R'' d) = True" for d
    by (simp add: graph_req_def)
  show ?thesis
    using depth_zero_empty_depth_one_root [OF a b c, of 0]
      depth_zero_empty_depth_one_root [OF a b c, of 1] a c [of 0] d e
    by (simp add: t)
qed

text \<open>
  C3 as stated fails: \<open>R\<close> is a node of the example vault, and the answer for root \<open>R\<close> at
  depth 0 has no node at all.
\<close>

theorem depth_zero_without_root:
  "map_of (nodes (build_graph True chain_vault)) ''R'' \<noteq> None \<and>
   generate_graph (graph_req ''R'' 0) (Vault chain_vault) =
     Inr \<lparr>resp_nodes = [], resp_edges = [],
          stats = \<lparr>total_notes = 0, total_tags = 0, total_links = 0\<rparr>\<rparr>"
  by code_simp

section \<open>Scoped traversal: what it returns\<close>

lemma traverse_unfold:
  "traverse ns es n d st =
     (if d \<le> 0 then st
      else case map_of ns n of
        None \<Rightarrow> st
      | Some v \<Rightarrow> fold (visit ns es n d) es (st\<lparr>nodes := AList.update n v (nodes st)\<rparr>))"
  by (subst traverse.simps) (simp add: visit_def [abs_def] split: option.split)

lemma loop_inv_refl: "loop_inv es x [] st st"
  by (simp add: loop_inv_def)

lemma loop_inv_trans:
  assumes x: "x \<in> visited st1"
    and a: "loop_inv es x xs1 st1 st2"
    and b: "loop_inv es x xs2 st2 st3"
  shows "loop_inv es x (xs1 @ xs2) st1 st3"
proof -
  from a obtain n1 where
    s12: "visited st1 \<subseteq> visited st2" and e12: "edges st2 = edges st1 @ n1" and
    p1: "\<And>e. e \<in> set n1 \<Longrightarrow> (source e \<in> visited st2 \<or> target e \<in> visited st2) \<and>
                (source e \<notin> visited st1 \<or> source e = x) \<and> (target e \<notin> visited st1 \<or> target e = x)" and
    c1: "\<And>e. count_list n1 e \<le>
               (if source e = x \<or> target e = x then count_list xs1 e else count_list es e)"
    unfolding loop_inv_def by blast
  from b obtain n2 where
    s23: "visited st2 \<subseteq> visited st3" and e23: "edges st3 = edges st2 @ n2" and
    p2: "\<And>e. e \<in> set n2 \<Longrightarrow> (source e \<in> visited st3 \<or> target e \<in> visited st3) \<and>
                (source e \<notin> visited st2 \<or> source e = x) \<and> (target e \<notin> visited st2 \<or> target e = x)" and
    c2: "\<And>e. count_list n2 e \<le>
               (if source e = x \<or> target e = x then count_list xs2 e else count_list es e)"
    unfolding loop_inv_def by blast
  have appended: "edges st3 = edges st1 @ (n1 @ n2)"
    by (simp add: e12 e23)
  have props: "(source e \<in> visited st3 \<or> target e \<in> visited st3) \<and>
               (source e \<notin> visited st1 \<or> source e = x) \<and> (target e \<notin> visited st1 \<or> target e = x)"
    if "e \<in> set (n1 @ n2)" for e
    using that p1 [of e] p2 [of e] s12 s23 by auto
  have counts: "count_list (n1 @ n2) e \<le>
                  (if source e = x \<or> target e = x then count_list (xs1 @ xs2) e else count_list es e)"
    for e
  proof (cases "source e = x \<or> target e = x")
    case True
    then show ?thesis using c1 [of e] c2 [of e] by (simp add: add_mono)
  next
    case False
    show ?thesis
    proof (cases "e \<in> set n1")
      case True
      with p1 [of e] have "source e \<in> visited st2 \<or> target e \<in> visited st2" by simp
      with p2 [of e] False have "e \<notin> set n2" by auto
      then have "count_list n2 e = 0" by (simp add: count_list_0_iff)
      with c1 [of e] False show ?thesis by simp
    next
      case no: False
      then have "count_list n1 e = 0" by (simp add: count_list_0_iff)
      with c2 [of e] False show ?thesis by simp
    qed
  qed
  show ?thesis
    unfolding loop_inv_def using s12 s23 appended props counts by blast
qed

lemma visit_step:
  assumes IH: "\<And>y st. map_of (nodes st) y = None \<Longrightarrow> grown es st (traverse ns es y (d - 1) st)"
    and x: "x \<in> visited st"
  shows "loop_inv es x [a] st (visit ns es x d a st)"
proof -
  let ?sa = "st\<lparr>edges := edges st @ [a]\<rparr>"
  have va: "visited ?sa = visited st" by (simp add: visited_def)
  have step: "loop_inv es x [a] st (traverse ns es y (d - 1) ?sa)"
    if y: "map_of (nodes st) y = None"
      and inc: "(source a = x \<and> target a = y) \<or> (target a = x \<and> source a = y)"
    for y
  proof -
    let ?t = "traverse ns es y (d - 1) ?sa"
    have "grown es ?sa ?t" using IH [of ?sa y] y by simp
    then obtain new where
      sub: "visited st \<subseteq> visited ?t" and ed: "edges ?t = edges st @ a # new" and
      p: "\<And>e. e \<in> set new \<Longrightarrow> source e \<notin> visited st \<and> target e \<notin> visited st \<and>
                 (source e \<in> visited ?t \<or> target e \<in> visited ?t)" and
      c: "\<And>e. count_list new e \<le> count_list es e"
      unfolding grown_def va by auto
    have ynot: "y \<notin> visited st" using y by (simp add: visited_def domIff)
    have props: "(source e \<in> visited ?t \<or> target e \<in> visited ?t) \<and>
               (source e \<notin> visited st \<or> source e = x) \<and> (target e \<notin> visited st \<or> target e = x)"
      if "e \<in> set (a # new)" for e
      using that p [of e] inc ynot x sub by auto
    have counts: "count_list (a # new) e \<le>
                  (if source e = x \<or> target e = x then count_list [a] e else count_list es e)" for e
    proof (cases "source e = x \<or> target e = x")
      case True
      with p [of e] x have "e \<notin> set new" by auto
      then have "count_list new e = 0" by (simp add: count_list_0_iff)
      with True show ?thesis by simp
    next
      case False
      with inc have "e \<noteq> a" by auto
      with c [of e] False show ?thesis by simp
    qed
    show ?thesis
      unfolding loop_inv_def using sub ed props counts by blast
  qed
  show ?thesis
    using step [of "target a"] step [of "source a"]
    by (auto simp: visit_def intro: loop_inv_refl simp: loop_inv_def)
qed

lemma loop_grows:
  assumes IH: "\<And>y st. map_of (nodes st) y = None \<Longrightarrow> grown es st (traverse ns es y (d - 1) st)"
    and x: "x \<in> visited st"
  shows "loop_inv es x xs st (fold (visit ns es x d) xs st)"
  using x
proof (induction xs arbitrary: st)
  case Nil
  show ?case by (simp add: loop_inv_refl)
next
  case (Cons a xs)
  have one: "loop_inv es x [a] st (visit ns es x d a st)"
    using IH Cons.prems by (rule visit_step)
  then have "x \<in> visited (visit ns es x d a st)"
    using Cons.prems by (auto simp: loop_inv_def)
  then have "loop_inv es x xs (visit ns es x d a st) (fold (visit ns es x d) xs (visit ns es x d a st))"
    by (rule Cons.IH)
  with loop_inv_trans [OF Cons.prems one] show ?case by simp
qed

lemma traverse_grows:
  "map_of (nodes st) x = None \<Longrightarrow> grown es st (traverse ns es x d st)"
proof (induction "nat d" arbitrary: d x st)
  case 0
  then show ?case by (simp add: traverse_stop grown_def)
next
  case (Suc k)
  have IH: "grown es st' (traverse ns es y (d - 1) st')" if "map_of (nodes st') y = None" for y st'
    using Suc.hyps(1) [of "d - 1" st' y] Suc.hyps(2) that by simp
  show ?case
  proof (cases "map_of ns x")
    case None
    then show ?thesis by (simp add: traverse_unfold grown_def)
  next
    case (Some v)
    let ?s1 = "st\<lparr>nodes := AList.update x v (nodes st)\<rparr>"
    let ?t = "fold (visit ns es x d) es ?s1"
    have v1: "visited ?s1 = insert x (visited st)"
      by (simp add: visited_def update_conv')
    have xnew: "x \<notin> visited st"
      using Suc.prems by (simp add: visited_def domIff)
    have xin: "x \<in> visited ?s1"
      unfolding v1 by simp
    have "loop_inv es x es ?s1 ?t"
      using IH xin by (rule loop_grows)
    then obtain new where
      sub: "insert x (visited st) \<subseteq> visited ?t" and ed: "edges ?t = edges st @ new" and
      p: "\<And>e. e \<in> set new \<Longrightarrow> (source e \<in> visited ?t \<or> target e \<in> visited ?t) \<and>
                 (source e \<notin> insert x (visited st) \<or> source e = x) \<and>
                 (target e \<notin> insert x (visited st) \<or> target e = x)" and
      c: "\<And>e. count_list new e \<le>
                (if source e = x \<or> target e = x then count_list es e else count_list es e)"
      unfolding loop_inv_def v1 by auto
    have props: "source e \<notin> visited st \<and> target e \<notin> visited st \<and>
                 (source e \<in> visited ?t \<or> target e \<in> visited ?t)" if "e \<in> set new" for e
      using p [OF that] xnew by auto
    have counts: "count_list new e \<le> count_list es e" for e
      using c [of e] by (simp split: if_splits)
    have "grown es st ?t"
      unfolding grown_def using sub ed props counts by blast
    moreover have "traverse ns es x d st = ?t"
      using Suc.hyps(2) Some by (simp add: traverse_unfold)
    ultimately show ?thesis by simp
  qed
qed

lemma traverse_invariant:
  assumes edge_step: "\<And>st e. I st \<Longrightarrow> I (st\<lparr>edges := edges st @ [e]\<rparr>)"
    and node_step: "\<And>st x v. I st \<Longrightarrow> map_of ns x = Some v \<Longrightarrow>
                      I (st\<lparr>nodes := AList.update x v (nodes st)\<rparr>)"
  shows "I st \<Longrightarrow> I (traverse ns es x d st)"
proof (induction "nat d" arbitrary: d x st)
  case 0
  then show ?case by (simp add: traverse_stop)
next
  case (Suc k)
  have IH: "I (traverse ns es y (d - 1) st')" if "I st'" for y st'
    using Suc.hyps(1) [of "d - 1" st' y] Suc.hyps(2) that by simp
  have loop: "I st' \<Longrightarrow> I (fold (visit ns es x d) xs st')" for xs st'
    by (induction xs arbitrary: st') (auto simp: visit_def intro!: IH edge_step)
  show ?case
    using Suc.prems Suc.hyps(2)
    by (auto simp: traverse_unfold split: option.splits intro!: loop node_step)
qed

lemma traverse_nodes_from:
  "map_of (nodes st) \<subseteq>\<^sub>m map_of ns \<Longrightarrow> map_of (nodes (traverse ns es x d st)) \<subseteq>\<^sub>m map_of ns"
  by (rule traverse_invariant [where I = "\<lambda>st. map_of (nodes st) \<subseteq>\<^sub>m map_of ns"])
     (auto simp: update_conv' map_le_def)

lemma traverse_distinct:
  "distinct (map fst (nodes st)) \<Longrightarrow> distinct (map fst (nodes (traverse ns es x d st)))"
  by (rule traverse_invariant [where I = "\<lambda>st. distinct (map fst (nodes st))"])
     (auto simp: distinct_update)

section \<open>Graph construction: nodes and edges of the full graph\<close>

lemma build_graph_snoc:
  "build_graph wt (fs @ [f]) = scan_file wt f (build_graph wt fs)"
  by (simp add: build_graph_def)

lemma scanned_docs_snoc:
  "scanned_docs (fs @ [f]) =
     scanned_docs fs @
       (if is_excluded_path (root f) \<or> \<not> endswith (file_name f) ''.md'' then []
        else case loaded f of None \<Rightarrow> [] | Some d \<Rightarrow> [(f, d)])"
  by (simp add: scanned_docs_def)

lemma add_tags_edges:
  "edges (fold (add_tag name) ts g) = edges g @ tag_edges name ts"
  by (induction ts arbitrary: g) (auto simp: add_tag_def tag_edges_def Let_def)

lemma add_tags_nodes:
  "map_of (nodes (fold (add_tag name) ts g)) k =
     (case map_of (nodes g) k of
        Some v \<Rightarrow> Some v
      | None \<Rightarrow> if k \<in> set ts then Some (Tag_Node k (''#'' @ k) 1) else None)"
  by (induction ts arbitrary: g) (auto simp: add_tag_def Let_def update_conv' split: option.splits)

lemma add_tags_distinct:
  "distinct (map fst (nodes g)) \<Longrightarrow> distinct (map fst (nodes (fold (add_tag name) ts g)))"
  by (induction ts arbitrary: g) (auto simp: add_tag_def Let_def distinct_update)

lemma scan_file_cases:
  obtains (skipped) "\<And>g. scan_file wt f g = g" and "scanned_docs (fs @ [f]) = scanned_docs fs"
  | (scanned) d where "scanned_docs (fs @ [f]) = scanned_docs fs @ [(f, d)]"
      and "\<And>g k. map_of (nodes (scan_file wt f g)) k =
             (if k = note_name f then Some (note_node f d)
              else case map_of (nodes g) k of
                Some v \<Rightarrow> Some v
              | None \<Rightarrow> if wt \<and> k \<in> set (tags d) then Some (Tag_Node k (''#'' @ k) 1) else None)"
      and "\<And>g. edges (scan_file wt f g) =
             edges g @ link_edges (note_name f) (content d) @
               (if wt then tag_edges (note_name f) (tags d) else [])"
      and "\<And>g. distinct (map fst (nodes g)) \<Longrightarrow> distinct (map fst (nodes (scan_file wt f g)))"
proof (cases "is_excluded_path (root f) \<or> \<not> endswith (file_name f) ''.md'' \<or> loaded f = None")
  case True
  then have "\<And>g. scan_file wt f g = g" and "scanned_docs (fs @ [f]) = scanned_docs fs"
    by (auto simp: scan_file_def scanned_docs_snoc)
  then show ?thesis by (rule skipped)
next
  case False
  then obtain d where d: "loaded f = Some d" by auto
  show ?thesis
  proof (rule scanned [of d])
    show "scanned_docs (fs @ [f]) = scanned_docs fs @ [(f, d)]"
      using False d by (simp add: scanned_docs_snoc)
    show "map_of (nodes (scan_file wt f g)) k =
             (if k = note_name f then Some (note_node f d)
              else case map_of (nodes g) k of
                Some v \<Rightarrow> Some v
              | None \<Rightarrow> if wt \<and> k \<in> set (tags d) then Some (Tag_Node k (''#'' @ k) 1) else None)"
      for g k
      using False d
      by (simp add: scan_file_def Let_def add_tags_nodes update_conv' note_name_def note_node_def
               split: option.splits)
    show "edges (scan_file wt f g) =
             edges g @ link_edges (note_name f) (content d) @
               (if wt then tag_edges (note_name f) (tags d) else [])" for g
      using False d by (simp add: scan_file_def Let_def add_tags_edges note_name_def)
    show "distinct (map fst (nodes g)) \<Longrightarrow> distinct (map fst (nodes (scan_file wt f g)))" for g
      using False d by (simp add: scan_file_def Let_def add_tags_distinct distinct_update)
  qed
qed

lemma build_graph_distinct: "distinct (map fst (nodes (build_graph wt fs)))"
proof (induction fs rule: rev_induct)
  case Nil
  show ?case by (simp add: build_graph_def)
next
  case (snoc f fs)
  show ?case
    by (cases rule: scan_file_cases [of wt f fs]) (simp_all add: build_graph_snoc snoc.IH)
qed

lemma build_graph_edges:
  "edges (build_graph wt fs) =
     concat (map (\<lambda>(f, d). link_edges (note_name f) (content d) @
                            (if wt then tag_edges (note_name f) (tags d) else []))
               (scanned_docs fs))"
proof (induction fs rule: rev_induct)
  case Nil
  show ?case by (simp add: build_graph_def scanned_docs_def)
next
  case (snoc f fs)
  show ?case
    by (cases rule: scan_file_cases [of wt f fs]) (simp_all add: build_graph_snoc snoc.IH)
qed

lemma build_graph_note_at:
  "k \<in> doc_names fs \<Longrightarrow>
   \<exists>v. map_of (nodes (build_graph wt fs)) k = Some v \<and> is_note v \<and> node_id v = k"
proof (induction fs rule: rev_induct)
  case Nil
  then show ?case by (simp add: doc_names_def scanned_docs_def)
next
  case (snoc f fs)
  show ?case
  proof (cases rule: scan_file_cases [of wt f fs])
    case skipped
    with snoc show ?thesis by (simp add: build_graph_snoc doc_names_def)
  next
    case (scanned d)
    show ?thesis
    proof (cases "k = note_name f")
      case True
      then show ?thesis by (simp add: build_graph_snoc scanned(2) note_node_def)
    next
      case False
      with snoc.prems scanned(1) have "k \<in> doc_names fs" by (auto simp: doc_names_def)
      with snoc.IH False show ?thesis by (auto simp: build_graph_snoc scanned(2))
    qed
  qed
qed

lemma build_graph_tag_at:
  "k \<notin> doc_names fs \<Longrightarrow>
   map_of (nodes (build_graph wt fs)) k =
     (if wt \<and> k \<in> tag_names fs then Some (Tag_Node k (''#'' @ k) 1) else None)"
proof (induction fs rule: rev_induct)
  case Nil
  then show ?case by (simp add: build_graph_def tag_names_def scanned_docs_def)
next
  case (snoc f fs)
  show ?case
  proof (cases rule: scan_file_cases [of wt f fs])
    case skipped
    with snoc show ?thesis by (simp add: build_graph_snoc doc_names_def tag_names_def)
  next
    case (scanned d)
    from snoc.prems scanned(1) have k: "k \<noteq> note_name f" "k \<notin> doc_names fs"
      by (auto simp: doc_names_def)
    have t: "tag_names (fs @ [f]) = tag_names fs \<union> set (tags d)"
      by (auto simp: tag_names_def scanned(1))
    show ?thesis
      using k snoc.IH by (auto simp: build_graph_snoc scanned(2) t)
  qed
qed

lemma build_graph_ids:
  "map_of (nodes (build_graph wt fs)) k = Some v \<Longrightarrow> node_id v = k"
  using build_graph_note_at [of k fs wt] build_graph_tag_at [of k fs wt]
  by (cases "k \<in> doc_names fs") (auto split: if_splits)

lemma build_graph_sources:
  assumes "e \<in> set (edges (build_graph wt fs))"
  shows "source e \<in> doc_names fs"
proof -
  from assms obtain f d where "(f, d) \<in> set (scanned_docs fs)"
    and "e \<in> set (link_edges (note_name f) (content d)) \<or>
         e \<in> set (tag_edges (note_name f) (tags d))"
    unfolding build_graph_edges by (auto split: if_splits)
  then show ?thesis
    by (force simp: doc_names_def link_edges_def tag_edges_def)
qed

section \<open>Scoped traversal: the returned subgraph\<close>

text \<open>
  C6, as the code has it. \<^verbatim>\<open>traverse\<close> appends an edge before it knows whether the node at
  its far end will be kept (it is not when the depth is used up or the identifier is no node
  at all), so the result is not an induced subgraph. For a root that is a node of the
  graph, at every depth: every returned node is a node of the full graph; every returned
  edge is an edge of the full graph and has its source or its target in the returned node
  set; and no edge occurs in the returned list more often than in the full edge list.
\<close>

theorem traversal_returns_subgraph:
  assumes root: "node req = Some r"
    and present: "map_of (nodes (build_graph (include_tags req) fs)) r \<noteq> None"
    and result: "generate_graph req (Vault fs) = Inr resp"
  shows "set (resp_nodes resp) \<subseteq> snd ` set (nodes (build_graph (include_tags req) fs)) \<and>
         (\<forall>e \<in> set (resp_edges resp).
            e \<in> set (edges (build_graph (include_tags req) fs)) \<and>
            (source e \<in> node_id ` set (resp_nodes resp) \<or>
             target e \<in> node_id ` set (resp_nodes resp))) \<and>
         (\<forall>e. count_list (resp_edges resp) e \<le>
                count_list (edges (build_graph (include_tags req) fs)) e)"
proof (cases "r = []")
  case True
  let ?G = "build_graph (include_tags req) fs"
  have resp: "resp = respond ?G"
    using root True result by (auto simp: generate_graph_def scoped_def)
  have "source e \<in> node_id ` set (map snd (nodes ?G))" if "e \<in> set (edges ?G)" for e
  proof -
    from that have "source e \<in> doc_names fs" by (rule build_graph_sources)
    then obtain v where "map_of (nodes ?G) (source e) = Some v" and "node_id v = source e"
      using build_graph_note_at by blast
    then show ?thesis by (force dest: map_of_SomeD)
  qed
  then show ?thesis
    unfolding resp respond_def by auto
next
  case False
  let ?G = "build_graph (include_tags req) fs"
  let ?T = "traverse (nodes ?G) (edges ?G) r (depth req) \<lparr>nodes = [], edges = []\<rparr>"
  have resp: "resp = respond ?T"
    using root False present result by (auto simp: generate_graph_def scoped_def)
  have sub: "map_of (nodes ?T) \<subseteq>\<^sub>m map_of (nodes ?G)"
    by (rule traverse_nodes_from) simp
  have dist: "distinct (map fst (nodes ?T))"
    by (rule traverse_distinct) simp
  have entry: "(k, v) \<in> set (nodes ?G) \<and> node_id v = k" if "(k, v) \<in> set (nodes ?T)" for k v
  proof -
    from that dist have "map_of (nodes ?T) k = Some v" by simp
    with sub have "map_of (nodes ?G) k = Some v"
      by (auto simp: map_le_def dom_def)
    then show ?thesis
      by (auto dest: map_of_SomeD build_graph_ids)
  qed
  have grown: "grown (edges ?G) \<lparr>nodes = [], edges = []\<rparr> ?T"
    by (rule traverse_grows) simp
  have touch: "source e \<in> visited ?T \<or> target e \<in> visited ?T" if "e \<in> set (edges ?T)" for e
    using grown that by (auto simp: grown_def)
  have counts: "count_list (edges ?T) e \<le> count_list (edges ?G) e" for e
    using grown by (auto simp: grown_def)
  have ids: "visited ?T \<subseteq> node_id ` set (map snd (nodes ?T))"
  proof
    fix k assume "k \<in> visited ?T"
    then obtain v where kv: "(k, v) \<in> set (nodes ?T)"
      by (auto simp: visited_def dest: map_of_SomeD)
    with entry [OF kv] show "k \<in> node_id ` set (map snd (nodes ?T))"
      by force
  qed
  have from_full: "e \<in> set (edges ?G)" if "e \<in> set (edges ?T)" for e
  proof -
    from that have "count_list (edges ?T) e \<noteq> 0" by (simp add: count_list_0_iff)
    with counts [of e] have "count_list (edges ?G) e \<noteq> 0" by simp
    then show ?thesis by (simp add: count_list_0_iff)
  qed
  have nodes_sub: "set (map snd (nodes ?T)) \<subseteq> snd ` set (nodes ?G)"
    using entry by force
  have touch_ids: "source e \<in> node_id ` set (map snd (nodes ?T)) \<or>
                   target e \<in> node_id ` set (map snd (nodes ?T))" if "e \<in> set (edges ?T)" for e
    using touch [OF that] ids by blast
  have nodes_eq: "resp_nodes resp = map snd (nodes ?T)" and edges_eq: "resp_edges resp = edges ?T"
    by (simp_all add: resp respond_def)
  show ?thesis
    unfolding nodes_eq edges_eq using nodes_sub touch_ids from_full counts by blast
qed

theorem traversal_returns_subgraph_witness:
  "node (graph_req ''R'' 2) = Some ''R'' \<and>
   map_of (nodes (build_graph (include_tags (graph_req ''R'' 2)) chain_vault)) ''R'' \<noteq> None \<and>
   generate_graph (graph_req ''R'' 2) (Vault chain_vault) =
     Inr (respond (scoped (graph_req ''R'' 2) (build_graph True chain_vault))) \<and>
   \<lparr>source = ''A'', target = ''B'', etype = Link_Edge\<rparr> \<in>
     set (edges (build_graph (include_tags (graph_req ''R'' 2)) chain_vault)) \<and>
   (''A'' \<in> node_id ` set (resp_nodes (respond (scoped (graph_req ''R'' 2) (build_graph True chain_vault)))) \<or>
    ''B'' \<in> node_id ` set (resp_nodes (respond (scoped (graph_req ''R'' 2) (build_graph True chain_vault))))) \<and>
   count_list (resp_edges (respond (scoped (graph_req ''R'' 2) (build_graph True chain_vault))))
     \<lparr>source = ''A'', target = ''B'', etype = Link_Edge\<rparr> \<le>
   count_list (edges (build_graph (include_tags (graph_req ''R'' 2)) chain_vault))
     \<lparr>source = ''A'', target = ''B'', etype = Link_Edge\<rparr>"
proof -
  let ?resp = "respond (scoped (graph_req ''R'' 2) (build_graph True chain_vault))"
  let ?e = "\<lparr>source = ''A'', target = ''B'', etype = Link_Edge\<rparr>"
  have a: "node (graph_req ''R'' 2) = Some ''R''"
    by (simp add: graph_req_def)
  have c: "map_of (nodes (build_graph (include_tags (graph_req ''R'' 2)) chain_vault)) ''R'' \<noteq> None"
    by code_simp
  have d: "generate_graph (graph_req ''R'' 2) (Vault chain_vault) = Inr ?resp"
    by (simp add: generate_graph_def graph_req_def)
  have e: "?e \<in> set (resp_edges ?resp)"
    by code_simp
  show ?thesis
    using traversal_returns_subgraph [OF a c d] a c d e by auto
qed

text \<open>
  C6 as stated fails: at depth 2 from \<open>R\<close> in the example vault the nodes are \<open>R\<close>, \<open>A\<close>
  and \<open>X\<close>, and the returned edges from \<open>A\<close> to \<open>B\<close>, from \<open>B\<close> to \<open>X\<close> and from \<open>X\<close> to
  \<open>Y\<close> each have an end outside them.
\<close>

theorem traversal_not_induced:
  "map_of (nodes (build_graph True chain_vault)) ''R'' \<noteq> None \<and>
   map node_id (resp_nodes (projr (generate_graph (graph_req ''R'' 2) (Vault chain_vault)))) =
     [''R'', ''A'', ''X''] \<and>
   resp_edges (projr (generate_graph (graph_req ''R'' 2) (Vault chain_vault))) =
     [\<lparr>source = ''A'', target = ''R'', etype = Link_Edge\<rparr>,
      \<lparr>source = ''A'', target = ''B'', etype = Link_Edge\<rparr>,
      \<lparr>source = ''R'', target = ''X'', etype = Link_Edge\<rparr>,
      \<lparr>source = ''B'', target = ''X'', etype = Link_Edge\<rparr>,
      \<lparr>source = ''X'', target = ''Y'', etype = Link_Edge\<rparr>]"
  by code_simp

section \<open>Graph construction: link edges\<close>

text \<open>
  The example corpus of the specification: the notes \<open>A\<close>, \<open>B\<close>, \<open>C\<close> and the tag \<open>x\<close>
  as nodes, and the five edges in the order the scan emits them.
\<close>

lemma spec_vault_graph:
  "map fst (nodes (build_graph True spec_vault)) = [''A'', ''x'', ''B'', ''C''] \<and>
   edges (build_graph True spec_vault) =
     [\<lparr>source = ''A'', target = ''B'', etype = Link_Edge\<rparr>,
      \<lparr>source = ''A'', target = ''C'', etype = Link_Edge\<rparr>,
      \<lparr>source = ''A'', target = ''x'', etype = Tag_Edge\<rparr>,
      \<lparr>source = ''B'', target = ''x'', etype = Tag_Edge\<rparr>,
      \<lparr>source = ''C'', target = ''A'', etype = Link_Edge\<rparr>]"
  by code_simp

text \<open>
  C7, as the code has it. The destination of a link edge is
  \<^verbatim>\<open>link.split('|')[0].strip()\<close>: the bracketed text up to the first \<^verbatim>\<open>|\<close>, with the
  whitespace at both ends removed as well. The graph builder emits one \<^verbatim>\<open>link\<close> edge for
  each match of \<^verbatim>\<open>[[...]]\<close> in each scanned document, duplicates retained, in scan order;
  their number is the total number of matches, and their destinations are the stripped
  targets.
\<close>

theorem link_edges_of_graph:
  "length (filter (\<lambda>e. etype e = Link_Edge) (edges (build_graph wt fs))) =
     sum_list (map (\<lambda>(f, d). length (find_links (content d))) (scanned_docs fs)) \<and>
   map target (filter (\<lambda>e. etype e = Link_Edge) (edges (build_graph wt fs))) =
     concat (map (\<lambda>(f, d). map (\<lambda>link. strip (split_first link)) (find_links (content d)))
               (scanned_docs fs))"
proof -
  have links: "filter (\<lambda>e. etype e = Link_Edge) (edges (build_graph wt fs)) =
                 concat (map (\<lambda>(f, d). link_edges (note_name f) (content d)) (scanned_docs fs))"
    unfolding build_graph_edges
    by (induction "scanned_docs fs" arbitrary: fs)
       (auto simp: link_edges_def tag_edges_def filter_concat comp_def split_def
             intro!: arg_cong [where f = concat])
  show ?thesis
    unfolding links
    by (simp add: length_concat map_concat comp_def split_def link_edges_def clean_link_def)
qed

text \<open>
  C7 as stated fails: the one link of the example note is \<^verbatim>\<open>[[ B |x]]\<close>; the text before
  the first \<^verbatim>\<open>|\<close> is \<open>B\<close> between two blanks, and the edge goes to \<open>B\<close> without them.
\<close>

theorem link_target_stripped:
  "find_links (content (the (loaded (hd padded_vault)))) = ['' B |x''] \<and>
   split_first '' B |x'' = '' B '' \<and>
   edges (build_graph True padded_vault) =
     [\<lparr>source = ''A'', target = ''B'', etype = Link_Edge\<rparr>]"
  by code_simp

section \<open>Graph construction: identifiers\<close>

text \<open>
  C9, as the code has it. The node dictionary has one key space for notes and tags, a note
  is stored unconditionally and a tag only under a free key. With tag nodes enabled: the
  identifiers are unique and each record carries its key as identifier; the identifier of
  every scanned document holds a Document node; and a tag of a scanned document has a Tag
  node of its own exactly when no scanned document bears its name. A tag equal to a document
  name shares the Document node.
\<close>

theorem identifiers_one_namespace:
  "distinct (map fst (nodes (build_graph True fs))) \<and>
   (\<forall>(k, v) \<in> set (nodes (build_graph True fs)). node_id v = k) \<and>
   (\<forall>k \<in> doc_names fs. \<exists>v. map_of (nodes (build_graph True fs)) k = Some v \<and> is_note v) \<and>
   (\<forall>t \<in> tag_names fs.
      (\<exists>v. map_of (nodes (build_graph True fs)) t = Some v \<and> is_tag v) \<longleftrightarrow> t \<notin> doc_names fs)"
proof -
  have ids: "node_id v = k" if "(k, v) \<in> set (nodes (build_graph True fs))" for k v
    using build_graph_ids [of True fs k v] that build_graph_distinct [of True fs] by simp
  have note_at: "\<exists>v. map_of (nodes (build_graph True fs)) k = Some v \<and> is_note v"
    if "k \<in> doc_names fs" for k
    using build_graph_note_at [OF that, of True] by blast
  have tag_at: "(\<exists>v. map_of (nodes (build_graph True fs)) t = Some v \<and> is_tag v) \<longleftrightarrow>
              t \<notin> doc_names fs" if "t \<in> tag_names fs" for t
  proof (cases "t \<in> doc_names fs")
    case True
    with note_at [of t] show ?thesis by (auto simp: node.disc)
  next
    case False
    with that show ?thesis by (simp add: build_graph_tag_at)
  qed
  show ?thesis
    using build_graph_distinct [of True fs] ids note_at tag_at by blast
qed

theorem identifiers_one_namespace_witness:
  "''B'' \<in> doc_names cross_vault \<and> ''B'' \<in> tag_names cross_vault \<and>
   distinct (map fst (nodes (build_graph True cross_vault))) \<and>
   (\<exists>v. map_of (nodes (build_graph True cross_vault)) ''B'' = Some v \<and> is_note v) \<and>
   \<not> (\<exists>v. map_of (nodes (build_graph True cross_vault)) ''B'' = Some v \<and> is_tag v)"
proof -
  have a: "''B'' \<in> doc_names cross_vault"
    by code_simp
  have b: "''B'' \<in> tag_names cross_vault"
    by code_simp
  show ?thesis
    using identifiers_one_namespace [of cross_vault] a b by blast
qed

text \<open>
  C9 as stated fails: in the example vault \<open>A\<close> is tagged \<open>B\<close> and \<open>B\<close> is tagged \<open>A\<close>.
  The Tag node made for \<open>B\<close> while \<open>A\<close> is scanned is overwritten by the note \<open>B\<close>, the tag
  \<open>A\<close> gets no node because the note \<open>A\<close> holds the key, and both tag edges end at notes:
  two node records for two notes and two tags.
\<close>

theorem tag_merges_with_document:
  "''A'' \<in> tag_names cross_vault \<and> ''B'' \<in> tag_names cross_vault \<and>
   nodes (build_graph True cross_vault) =
     [(''A'', Note_Node ''A'' ''A'' ''/vault/A.md'' [''B''] 23),
      (''B'', Note_Node ''B'' ''B'' ''/vault/B.md'' [''A''] 24)] \<and>
   edges (build_graph True cross_vault) =
     [\<lparr>source = ''A'', target = ''B'', etype = Tag_Edge\<rparr>,
      \<lparr>source = ''B'', target = ''A'', etype = Tag_Edge\<rparr>]"
  by code_simp

section \<open>Ranked search: helper facts\<close>




lemma collect_snoc:
  "collect re req (fs @ [f]) =
     (if dir_skipped req (root f) then collect re req fs
      else case search_file re req f of
        None \<Rightarrow> collect re req fs
      | Some r \<Rightarrow> collect re req fs @ [r])"
  by (simp add: collect_def split: option.split)

lemma collect_origin:
  "r \<in> set (collect re req fs) \<Longrightarrow> \<exists>f \<in> set fs. search_file re req f = Some r"
  by (induction fs rule: rev_induct)
     (auto simp: collect_snoc collect_def split: if_splits option.splits)

lemma unknown_mode_no_match:
  "search_type req \<notin> known_modes \<Longrightarrow> search_file re req f = None"
  by (auto simp: search_file_def is_match_def known_modes_def split: option.splits)







section \<open>Ranked search: content mode\<close>




section \<open>Ranked search: unknown mode\<close>

text \<open>
  The chain of tests on \<^verbatim>\<open>search_type\<close> in \<^verbatim>\<open>search_notes\<close> has no final \<^verbatim>\<open>else\<close>:
  under a mode that is none of \<^verbatim>\<open>content\<close>, \<^verbatim>\<open>title\<close>, \<^verbatim>\<open>tags\<close>, \<^verbatim>\<open>backlinks\<close> no
  document matches, and the search answers normally with count 0 and an empty result list.
\<close>

lemma unknown_mode_empty_response:
  assumes "search_type req \<notin> known_modes"
  shows "search_notes re req (Vault fs) =
           Inr \<lparr>resp_query = query req, resp_count = 0, results = []\<rparr>"
proof -
  have "collect re req fs = []"
    using collect_origin [of _ re req fs] unknown_mode_no_match [OF assms, of re]
    by (cases "collect re req fs") auto
  then show ?thesis
    by (simp add: search_notes_def sort_results_def slice_to_def)
qed

text \<open>
  C5 at the failing input: the mode \<^verbatim>\<open>tag\<close> is none of the known modes, and the search
  over the example corpus returns a response with count 0 and no results where the claim
  has an error. The sibling endpoints \<^verbatim>\<open>execute_workflow\<close> and \<^verbatim>\<open>ai_assist\<close> end their
  chains with \<^verbatim>\<open>else: raise HTTPException(status_code=400, ...)\<close>.
\<close>

theorem unknown_mode_no_error:
  "search_type (search_req ''x'' ''tag'') \<notin> known_modes \<and>
   search_notes no_ext (search_req ''x'' ''tag'') (Vault spec_vault) =
     Inr \<lparr>resp_query = ''x'', resp_count = 0, results = []\<rparr>"
  by code_simp

section \<open>Ranked search: order and truncation\<close>



section \<open>Ranked search: the match count in every mode\<close>



end
